theory Spec2Isabelle
  imports Main "HOL-Library.Word"
begin

unbundle bit_operations_syntax

section \<open>JavaScript values and operators used by the decoder\<close>

type_synonym byte = "8 word"

text \<open>
  The exceptions the decoder can raise: the \<open>TypeError\<close> of the runtime (a property read
  on \<open>null\<close> or \<open>undefined\<close>) and the two \<open>Error\<close>s thrown by \<open>Vdf._parseHeader\<close>
  (the first carries the signature that was read, as its message does).
\<close>

datatype error = TypeError | InvalidFileType int | InvalidVersion

text \<open>
  \<open>buffer[i]\<close> on a \<open>Buffer\<close>: the byte as a number between 0 and 255, and
  \<open>undefined\<close> (here \<open>None\<close>) when \<open>i\<close> is outside the buffer.
\<close>

definition buffer_at :: "byte list \<Rightarrow> nat \<Rightarrow> int option" where
  "buffer_at buffer i = (if i < length buffer then Some (uint (buffer ! i)) else None)"

text \<open>
  \<open>ToInt32\<close> of the language standard, on the values that occur here: integers, and
  \<open>undefined\<close>, which converts to 0.
\<close>

definition ToInt32 :: "int option \<Rightarrow> 32 word" where
  "ToInt32 v = (case v of None \<Rightarrow> 0 | Some n \<Rightarrow> word_of_int n)"

text \<open>
  \<open>a << k\<close>: both operands become 32-bit integers, only the low five bits of the shift
  count are used, and the result is a signed 32-bit integer.
\<close>

definition js_shl :: "int option \<Rightarrow> nat \<Rightarrow> int" where
  "js_shl a k = sint (push_bit (k mod 32) (ToInt32 a))"

text \<open>\<open>a | b\<close>: both operands become 32-bit integers, the result is a signed one.\<close>

definition js_or :: "int \<Rightarrow> int \<Rightarrow> int" where
  "js_or a b = sint (ToInt32 (Some a) OR ToInt32 (Some b))"

text \<open>
  \<open>Number.prototype.toString(16)\<close> on a non-negative integer: the lowercase hexadecimal
  digits, most significant first, with no leading zero.
\<close>

definition hexdigit :: "nat \<Rightarrow> char" where
  "hexdigit d = ''0123456789abcdef'' ! d"

function toString16 :: "nat \<Rightarrow> string" where
  "toString16 n = (if n < 16 then [hexdigit n] else toString16 (n div 16) @ [hexdigit (n mod 16)])"
  by pat_completeness auto
termination
  by (relation "measure (\<lambda>n. n)") auto

declare toString16.simps [simp del]

text \<open>\<open>String.fromCharCode(code)\<close>; \<open>undefined\<close> converts to the code unit 0.\<close>

definition fromCharCode :: "int option \<Rightarrow> char" where
  "fromCharCode code = (case code of None \<Rightarrow> char_of (0::int) | Some c \<Rightarrow> char_of c)"

section \<open>The stream over the input buffer\<close>

text \<open>
  \<open>Vdf._createStreamFromBuffer\<close> builds a \<open>Readable\<close> whose \<open>read()\<close> implementation
  pushes the whole buffer and then the end marker. All reads of the decoder are
  synchronous \<open>stream.read(n)\<close> calls, so the stream is modelled by the bytes not yet
  read. \<open>stream.read(n)\<close> follows the documented behaviour of the runtime: it returns
  \<open>null\<close> when nothing can be returned (\<open>n = 0\<close>, or no byte is left), \<open>n\<close> bytes when
  that many are left, and, the stream having ended, all the bytes that are left when they
  are fewer than \<open>n\<close>.
\<close>

type_synonym Readable = "byte list"

definition read :: "Readable \<Rightarrow> nat \<Rightarrow> byte list option \<times> Readable" where
  "read stream n =
     (if n = 0 \<or> stream = [] then (None, stream)
      else if n \<le> length stream then (Some (take n stream), drop n stream)
      else (Some stream, []))"

section \<open>helper: parseNumber, parseString, parseRawBytes\<close>

text \<open>
  The \<open>for\<close> loop of \<open>parseNumber\<close>, from index \<open>i\<close>:
  \<open>number |= (buffer[i] << (i * 8))\<close>.
\<close>

function parseNumber_loop :: "nat \<Rightarrow> nat \<Rightarrow> byte list \<Rightarrow> int \<Rightarrow> int" where
  "parseNumber_loop i bytes buffer number =
     (if i < bytes
      then parseNumber_loop (i + 1) bytes buffer (js_or number (js_shl (buffer_at buffer i) (i * 8)))
      else number)"
  by pat_completeness auto
termination
  by (relation "measure (\<lambda>(i, bytes, buffer, number). bytes - i)") auto

declare parseNumber_loop.simps [simp del]

text \<open>
  \<open>parseNumber(stream, length)\<close>. The widths the decoder passes are 8, 32, 64 (and 160 to
  \<open>parseRawBytes\<close>), all multiples of 8, where \<open>length / 8\<close> is \<open>len div 8\<close>. The buffer
  is never empty (\<open>read\<close> returns a non-empty buffer or \<open>null\<close>, which is replaced by the
  one-byte buffer \<open>[0]\<close>), so \<open>buffer[0]\<close> is always a number; the function raises nothing.
  It returns the number and the stream after the read.
\<close>

definition parseNumber :: "Readable \<Rightarrow> nat \<Rightarrow> int \<times> Readable" where
  "parseNumber stream len =
     (let bytes = len div 8;
          (r, stream') = read stream bytes;
          buffer = (case r of None \<Rightarrow> [0] | Some b \<Rightarrow> b);
          number = (case buffer_at buffer 0 of Some v \<Rightarrow> v | None \<Rightarrow> 0)
      in (parseNumber_loop 1 bytes buffer number, stream'))"

text \<open>
  The \<open>while (true)\<close> loop of \<open>parseString\<close>. \<open>(stream.read(1) as Buffer)[0]\<close> raises
  a \<open>TypeError\<close> when \<open>read\<close> returns \<open>null\<close>.
\<close>

function parseString_loop :: "Readable \<Rightarrow> string \<Rightarrow> error + (string \<times> Readable)" where
  "parseString_loop stream str =
     (case read stream 1 of
        (None, stream') \<Rightarrow> Inl TypeError
      | (Some buffer, stream') \<Rightarrow>
          (let code = buffer_at buffer 0
           in if code = Some 0 then Inr (str, stream')
              else parseString_loop stream' (str @ [fromCharCode code])))"
  by pat_completeness auto
termination
  by (relation "measure (\<lambda>(stream, str). length stream)") (auto simp: read_def split: if_splits)

declare parseString_loop.simps [simp del]

definition parseString :: "Readable \<Rightarrow> error + (string \<times> Readable)" where
  "parseString stream = parseString_loop stream []"

text \<open>
  The \<open>for\<close> loop of \<open>parseRawBytes\<close>, from index \<open>i\<close>:
  \<open>string += buffer[i].toString(16)\<close>, a \<open>TypeError\<close> when \<open>buffer[i]\<close> is
  \<open>undefined\<close>.
\<close>

function parseRawBytes_loop :: "nat \<Rightarrow> nat \<Rightarrow> byte list \<Rightarrow> string \<Rightarrow> error + string" where
  "parseRawBytes_loop i bytes buffer str =
     (if i < bytes
      then (case buffer_at buffer i of
              None \<Rightarrow> Inl TypeError
            | Some v \<Rightarrow> parseRawBytes_loop (i + 1) bytes buffer (str @ toString16 (nat v)))
      else Inr str)"
  by pat_completeness auto
termination
  by (relation "measure (\<lambda>(i, bytes, buffer, str). bytes - i)") auto

declare parseRawBytes_loop.simps [simp del]

definition parseRawBytes :: "Readable \<Rightarrow> nat \<Rightarrow> error + (string \<times> Readable)" where
  "parseRawBytes stream len =
     (let bytes = len div 8;
          (r, stream') = read stream bytes;
          buffer = (case r of None \<Rightarrow> [0] | Some b \<Rightarrow> b)
      in (case parseRawBytes_loop 0 bytes buffer [] of
            Inl e \<Rightarrow> Inl e
          | Inr str \<Rightarrow> Inr (str, stream')))"

section \<open>VdfNode\<close>

text \<open>
  The \<open>const enum VdfTypes\<close>: \<open>None = 0\<close>, \<open>String\<close>, \<open>Int\<close>, \<open>Float\<close>, \<open>Ptr\<close>,
  \<open>Wstring\<close>, \<open>Color\<close>, \<open>Uint64\<close>, \<open>Numtypes\<close>, with the aliases \<open>Int32 = Int\<close>,
  \<open>Float32 = Float\<close>, \<open>Map = None\<close> and \<open>End = Numtypes\<close>.
\<close>

definition VdfTypes_Map :: int where "VdfTypes_Map = 0"
definition VdfTypes_String :: int where "VdfTypes_String = 1"
definition VdfTypes_Int32 :: int where "VdfTypes_Int32 = 2"
definition VdfTypes_Float32 :: int where "VdfTypes_Float32 = 3"
definition VdfTypes_Ptr :: int where "VdfTypes_Ptr = 4"
definition VdfTypes_Wstring :: int where "VdfTypes_Wstring = 5"
definition VdfTypes_Color :: int where "VdfTypes_Color = 6"
definition VdfTypes_Uint64 :: int where "VdfTypes_Uint64 = 7"
definition VdfTypes_End :: int where "VdfTypes_End = 8"

text \<open>
  \<open>VdfNodeData\<close> is \<open>undefined | string | number\<close>. A \<open>VdfNode\<close> object has the
  fields \<open>_type\<close>, \<open>_name\<close> (unset, \<open>None\<close>, until \<open>_parseName\<close> runs), \<open>_value\<close>,
  \<open>_childrenCount\<close> and \<open>_children\<close>; the counts are numbers that are incremented and
  decremented, so they are integers here.
\<close>

datatype VdfNodeData = Undefined | Str string | Num int

datatype VdfNode = Node (n_type: int) (n_name: "string option") (n_value: VdfNodeData)
  (n_childrenCount: int) (n_children: "VdfNode list")

text \<open>\<open>array[i]\<close> on an array: \<open>undefined\<close> (\<open>None\<close>) outside the array.\<close>

definition array_at :: "'a list \<Rightarrow> int \<Rightarrow> 'a option" where
  "array_at xs i = (if 0 \<le> i \<and> i < int (length xs) then Some (xs ! nat i) else None)"

text \<open>
  \<open>new VdfNode(stream)\<close>: \<open>_parseType\<close>, and unless the type is \<open>End\<close>,
  \<open>_parseName\<close> and \<open>_parseValue\<close>. The \<open>switch\<close> of \<open>_parseValue\<close> has the cases
  \<open>Map\<close>, \<open>String\<close> and \<open>Int32\<close> and no default. In the \<open>Map\<close> case the first
  child is read before the \<open>while\<close> loop; \<open>VdfNode_parseValue_loop\<close> is that loop, on
  the count, the children pushed so far and the stream, and the decrement and the
  \<open>pop()\<close> that follow it are \<open>cnt - 1\<close> and \<open>butlast\<close>. A failure is the exception
  that leaves the constructor; the function returns the node and the stream after it.
\<close>

function new_VdfNode :: "Readable \<Rightarrow> error + (VdfNode \<times> Readable)"
  and VdfNode_parseValue_loop ::
    "int \<Rightarrow> VdfNode list \<Rightarrow> Readable \<Rightarrow> error + (int \<times> VdfNode list \<times> Readable)"
where
  "new_VdfNode stream =
     (case parseNumber stream 8 of (t, s1) \<Rightarrow>
        if t \<noteq> VdfTypes_End then
          (case parseString s1 of
             Inl e \<Rightarrow> Inl e
           | Inr (name, s2) \<Rightarrow>
               if t = VdfTypes_Map then
                 (case new_VdfNode s2 of
                    Inl e \<Rightarrow> Inl e
                  | Inr (c, s3) \<Rightarrow>
                      (case VdfNode_parseValue_loop 1 [c] s3 of
                         Inl e \<Rightarrow> Inl e
                       | Inr (cnt, chs, s4) \<Rightarrow>
                           Inr (Node t (Some name) Undefined (cnt - 1) (butlast chs), s4)))
               else if t = VdfTypes_String then
                 (case parseString s2 of
                    Inl e \<Rightarrow> Inl e
                  | Inr (v, s3) \<Rightarrow> Inr (Node t (Some name) (Str v) 0 [], s3))
               else if t = VdfTypes_Int32 then
                 (case parseNumber s2 32 of (v, s3) \<Rightarrow> Inr (Node t (Some name) (Num v) 0 [], s3))
               else Inr (Node t (Some name) Undefined 0 [], s2))
        else Inr (Node t None Undefined 0 [], s1))"
| "VdfNode_parseValue_loop cnt chs stream =
     (case array_at chs (cnt - 1) of
        None \<Rightarrow> Inl TypeError
      | Some c \<Rightarrow>
          if n_type c \<noteq> VdfTypes_End then
            (case new_VdfNode stream of
               Inl e \<Rightarrow> Inl e
             | Inr (c', stream') \<Rightarrow> VdfNode_parseValue_loop (cnt + 1) (chs @ [c']) stream')
          else Inr (cnt, chs, stream))"
  by pat_completeness auto

subsection \<open>Termination of the node decoder\<close>

text \<open>
  Every read that succeeds shortens the stream, and a node that decodes has consumed at
  least its tag byte: on an empty stream the tag is read as 0 and \<open>parseString\<close> raises.
\<close>

lemma read_shorter: "read stream n = (Some buffer, stream') \<Longrightarrow> length stream' < length stream"
  by (auto simp: read_def split: if_splits)

lemma parseNumber_length: "parseNumber s n = (v, s') \<Longrightarrow> length s' \<le> length s"
  by (auto simp: parseNumber_def read_def Let_def split: if_splits)

lemma parseNumber_loop_done: "bytes \<le> i \<Longrightarrow> parseNumber_loop i bytes buffer number = number"
  by (simp add: parseNumber_loop.simps)

lemma parseNumber_8_cases:
  "parseNumber s 8 = (t, s1) \<Longrightarrow> (s = [] \<and> t = 0 \<and> s1 = []) \<or> length s1 < length s"
  by (auto simp: parseNumber_def read_def Let_def buffer_at_def parseNumber_loop_done split: if_splits)

lemma parseString_loop_length: "parseString_loop s str = Inr (v, s') \<Longrightarrow> length s' < length s"
proof (induction s str rule: parseString_loop.induct)
  case (1 stream str)
  obtain r s1 where r: "read stream 1 = (r, s1)" by (cases "read stream 1")
  show ?case
  proof (cases r)
    case None
    with r "1.prems" show ?thesis by (subst (asm) parseString_loop.simps) simp
  next
    case (Some buffer)
    have sh: "length s1 < length stream" using r Some by (auto intro: read_shorter)
    show ?thesis
    proof (cases "buffer_at buffer 0 = Some 0")
      case True
      with r Some "1.prems" sh show ?thesis by (subst (asm) parseString_loop.simps) simp
    next
      case False
      with r Some "1.prems" have "parseString_loop s1 (str @ [fromCharCode (buffer_at buffer 0)]) = Inr (v, s')"
        by (subst (asm) parseString_loop.simps) (simp add: Let_def)
      with "1.IH" [OF r [symmetric] Some refl False] have "length s' < length s1" by simp
      with sh show ?thesis by simp
    qed
  qed
qed

lemma parseString_length: "parseString s = Inr (v, s') \<Longrightarrow> length s' < length s"
  unfolding parseString_def by (rule parseString_loop_length)

lemma parseString_Nil: "parseString [] = Inl TypeError"
  by (simp add: parseString_def read_def parseString_loop.simps [of "[]"])

lemma new_VdfNode_dom_length:
  "new_VdfNode_VdfNode_parseValue_loop_dom (Inl s) \<Longrightarrow>
     (\<forall>n s'. new_VdfNode s = Inr (n, s') \<longrightarrow> length s' < length s)"
  "new_VdfNode_VdfNode_parseValue_loop_dom (Inr (cnt, chs, s)) \<Longrightarrow>
     (\<forall>cnt' chs' s'. VdfNode_parseValue_loop cnt chs s = Inr (cnt', chs', s') \<longrightarrow> length s' \<le> length s)"
proof (induction s and cnt chs s rule: new_VdfNode_VdfNode_parseValue_loop.pinduct)
  case (1 stream)
  obtain t s1 where pn: "parseNumber stream 8 = (t, s1)" by (cases "parseNumber stream 8")
  show ?case
  proof (intro allI impI)
    fix n s' assume res: "new_VdfNode stream = Inr (n, s')"
    note eq = res [unfolded new_VdfNode.psimps [OF "1.hyps"] pn, simplified]
    from parseNumber_8_cases [OF pn] show "length s' < length stream"
    proof
      assume "stream = [] \<and> t = 0 \<and> s1 = []"
      with eq show ?thesis by (simp add: parseString_Nil VdfTypes_End_def)
    next
      assume sh1: "length s1 < length stream"
      show ?thesis
      proof (cases "t = VdfTypes_End")
        case True
        with eq sh1 show ?thesis by simp
      next
        case notEnd: False
        then obtain name s2 where ps: "parseString s1 = Inr (name, s2)"
          using eq by (auto split: sum.splits)
        have sh2: "length s2 < length s1" using ps by (rule parseString_length)
        show ?thesis
        proof (cases "t = VdfTypes_Map")
          case True
          then obtain c s3 where nn: "new_VdfNode s2 = Inr (c, s3)"
            using eq notEnd ps by (auto split: sum.splits)
          then obtain cnt chs where lp: "VdfNode_parseValue_loop 1 [c] s3 = Inr (cnt, chs, s')"
            using eq notEnd ps True by (auto split: sum.splits)
          have "length s3 < length s2"
            using "1.IH"(1) [OF pn [symmetric] notEnd ps refl True] nn by simp
          moreover have "length s' \<le> length s3"
            using "1.IH"(2) [OF pn [symmetric] notEnd ps refl True nn refl] lp by simp
          ultimately show ?thesis using sh1 sh2 by simp
        next
          case notMap: False
          show ?thesis
          proof (cases "t = VdfTypes_String")
            case True
            then obtain v where "parseString s2 = Inr (v, s')"
              using eq notEnd ps notMap by (auto split: sum.splits)
            then have "length s' < length s2" by (rule parseString_length)
            then show ?thesis using sh1 sh2 by simp
          next
            case notStr: False
            show ?thesis
            proof (cases "t = VdfTypes_Int32")
              case True
              then obtain v where "parseNumber s2 32 = (v, s')"
                using eq notEnd ps notMap notStr by (auto split: prod.splits)
              then have "length s' \<le> length s2" by (rule parseNumber_length)
              then show ?thesis using sh1 sh2 by simp
            next
              case False
              then have "s' = s2" using eq notEnd ps notMap notStr by simp
              then show ?thesis using sh1 sh2 by simp
            qed
          qed
        qed
      qed
    qed
  qed
next
  case (2 cnt chs stream)
  show ?case
  proof (intro allI impI)
    fix cnt' chs' s' assume res: "VdfNode_parseValue_loop cnt chs stream = Inr (cnt', chs', s')"
    note eq = res [unfolded VdfNode_parseValue_loop.psimps [OF "2.hyps"]]
    from eq obtain c where at: "array_at chs (cnt - 1) = Some c" by (auto split: option.splits)
    show "length s' \<le> length stream"
    proof (cases "n_type c = VdfTypes_End")
      case True
      with eq at show ?thesis by simp
    next
      case False
      then obtain c' s1 where nn: "new_VdfNode stream = Inr (c', s1)"
        and lp: "VdfNode_parseValue_loop (cnt + 1) (chs @ [c']) s1 = Inr (cnt', chs', s')"
        using eq at by (auto split: sum.splits)
      have "length s1 < length stream" using "2.IH"(1) [OF at False] nn by simp
      moreover have "length s' \<le> length s1" using "2.IH"(2) [OF at False nn refl] lp by simp
      ultimately show ?thesis by simp
    qed
  qed
qed

lemma new_VdfNode_total: "All new_VdfNode_VdfNode_parseValue_loop_dom"
proof (rule "new_VdfNode_VdfNode_parseValue_loop.termination"
    [of "measure (\<lambda>x. case x of Inl s \<Rightarrow> 2 * length s | Inr (cnt, chs, s) \<Rightarrow> 2 * length s + 1)"],
    goal_cases)
  case 1
  show ?case by simp
next
  case (2 stream x y b xa ya)
  have "length y \<le> length stream" using 2(1) by (intro parseNumber_length [OF sym])
  moreover have "length ya < length y" using 2(3,4) by (intro parseString_length [of y xa]) simp
  ultimately show ?case by simp
next
  case (3 stream x y b xa ya ba xb yb)
  have "length y \<le> length stream" using 3(1) by (intro parseNumber_length [OF sym])
  moreover have "length ya < length y" using 3(3,4) by (intro parseString_length [of y xa]) simp
  moreover have "new_VdfNode ya = Inr (xb, yb)" using 3(6,7) by simp
  then have "length yb < length ya" using new_VdfNode_dom_length(1) [OF 3(8)] by blast
  ultimately show ?case by simp
next
  case (4 cnt chs stream x2)
  then show ?case by simp
next
  case (5 cnt chs stream x2 b x y)
  have "new_VdfNode stream = Inr (x, y)" using 5(3,4) by simp
  then have "length y < length stream" using new_VdfNode_dom_length(1) [OF 5(5)] by blast
  then show ?case by simp
qed

termination new_VdfNode
  by (rule new_VdfNode_total)

declare new_VdfNode.simps [simp del] VdfNode_parseValue_loop.simps [simp del]

lemma new_VdfNode_length: "new_VdfNode s = Inr (n, s') \<Longrightarrow> length s' < length s"
  using new_VdfNode_dom_length(1) [of s] new_VdfNode_total by simp

subsection \<open>The value getter\<close>

text \<open>
  A \<open>VdfNodeJson\<close> is node data or an object. An object is the list of its own
  properties in insertion order, and \<open>object[key] = value\<close> replaces the value of a key
  that is there and adds the key otherwise. Assigning to the key \<open>__proto__\<close> of an
  object created by a literal goes to the prototype setter and changes no own property.
  The order in which the runtime lists integer-like keys is not modelled. A property
  key that is \<open>undefined\<close> (the name of a node whose name is unset) is the string
  \<open>undefined\<close>.
\<close>

datatype VdfNodeJson = Data VdfNodeData | Object "(string \<times> VdfNodeJson) list"

definition property_key :: "string option \<Rightarrow> string" where
  "property_key name = (case name of None \<Rightarrow> ''undefined'' | Some s \<Rightarrow> s)"

fun assign_own :: "(string \<times> 'v) list \<Rightarrow> string \<Rightarrow> 'v \<Rightarrow> (string \<times> 'v) list" where
  "assign_own [] k v = [(k, v)]"
| "assign_own ((k', v') # object) k v =
     (if k' = k then (k, v) # object else (k', v') # assign_own object k v)"

definition assign :: "(string \<times> 'v) list \<Rightarrow> string \<Rightarrow> 'v \<Rightarrow> (string \<times> 'v) list" where
  "assign object k v = (if k = ''__proto__'' then object else assign_own object k v)"

text \<open>
  The getter \<open>value\<close>: the node's \<open>_value\<close> when \<open>_type !== 0\<close>, and otherwise the
  object built by \<open>object[child.name] = child.value\<close> over the children in order.
\<close>

fun VdfNode_value :: "VdfNode \<Rightarrow> VdfNodeJson" where
  "VdfNode_value (Node t name v cnt chs) =
     (if t \<noteq> 0 then Data v
      else Object (foldl (\<lambda>object child.
                            assign object (property_key (n_name child)) (VdfNode_value child))
                     [] chs))"

section \<open>VdfGame\<close>

text \<open>
  The fields of a \<open>VdfGame\<close>. \<open>_parseHeader\<close> reads them in order with the widths 32,
  32, 32, 32, 64, 160 (as raw bytes) and 32; only \<open>parseRawBytes\<close> can raise.
\<close>

record VdfGame =
  g_appId :: int
  g_dataSize :: int
  g_infoState :: int
  g_lastUpdated :: int
  g_accessToken :: int
  g_sha :: string
  g_changeNumber :: int
  g_childrenCount :: int
  g_children :: "VdfNode list"

definition VdfGame_parseHeader :: "Readable \<Rightarrow> error + (VdfGame \<times> Readable)" where
  "VdfGame_parseHeader stream =
     (case parseNumber stream 32 of (appId, s1) \<Rightarrow>
      case parseNumber s1 32 of (dataSize, s2) \<Rightarrow>
      case parseNumber s2 32 of (infoState, s3) \<Rightarrow>
      case parseNumber s3 32 of (lastUpdated, s4) \<Rightarrow>
      case parseNumber s4 64 of (accessToken, s5) \<Rightarrow>
      case parseRawBytes s5 160 of
        Inl e \<Rightarrow> Inl e
      | Inr (sha, s6) \<Rightarrow>
      case parseNumber s6 32 of (changeNumber, s7) \<Rightarrow>
        Inr (\<lparr>g_appId = appId, g_dataSize = dataSize, g_infoState = infoState,
              g_lastUpdated = lastUpdated, g_accessToken = accessToken, g_sha = sha,
              g_changeNumber = changeNumber, g_childrenCount = 0, g_children = []\<rparr>, s7))"

text \<open>
  \<open>_parseBody\<close> reads nodes until one has the type \<open>End\<close>, as the \<open>Map\<close> case of a
  node does (here through the getter \<open>type\<close>), then decrements the count and pops.
\<close>

function VdfGame_parseBody_loop ::
  "int \<Rightarrow> VdfNode list \<Rightarrow> Readable \<Rightarrow> error + (int \<times> VdfNode list \<times> Readable)" where
  "VdfGame_parseBody_loop cnt chs stream =
     (case array_at chs (cnt - 1) of
        None \<Rightarrow> Inl TypeError
      | Some c \<Rightarrow>
          if n_type c \<noteq> VdfTypes_End then
            (case new_VdfNode stream of
               Inl e \<Rightarrow> Inl e
             | Inr (c', stream') \<Rightarrow> VdfGame_parseBody_loop (cnt + 1) (chs @ [c']) stream')
          else Inr (cnt, chs, stream))"
  by pat_completeness auto
termination
proof (relation "measure (\<lambda>(cnt, chs, stream). length stream)", goal_cases)
  case 1
  show ?case by simp
next
  case (2 cnt chs stream c b c' stream')
  then have "new_VdfNode stream = Inr (c', stream')" by simp
  then show ?case by (simp add: new_VdfNode_length)
qed

declare VdfGame_parseBody_loop.simps [simp del]

definition VdfGame_parseBody :: "VdfGame \<Rightarrow> Readable \<Rightarrow> error + (VdfGame \<times> Readable)" where
  "VdfGame_parseBody g stream =
     (case new_VdfNode stream of
        Inl e \<Rightarrow> Inl e
      | Inr (c, s1) \<Rightarrow>
          (case VdfGame_parseBody_loop (g_childrenCount g + 1) (g_children g @ [c]) s1 of
             Inl e \<Rightarrow> Inl e
           | Inr (cnt, chs, s2) \<Rightarrow>
               Inr (g\<lparr>g_childrenCount := cnt - 1, g_children := butlast chs\<rparr>, s2)))"

definition new_VdfGame :: "Readable \<Rightarrow> error + (VdfGame \<times> Readable)" where
  "new_VdfGame stream =
     (case VdfGame_parseHeader stream of
        Inl e \<Rightarrow> Inl e
      | Inr (g, s1) \<Rightarrow> VdfGame_parseBody g s1)"

text \<open>
  \<open>json()\<close>: the object literal with \<open>appId\<close>, \<open>dataSize\<close>, \<open>infoState\<close>,
  \<open>lastUpdated\<close> and \<open>changeNumber\<close> (the lines for \<open>accessToken\<close> and \<open>sha\<close> are
  commented out in the source), then \<open>object[child.name] = child.value\<close> for every
  child.
\<close>

type_synonym VdfGameJson = "(string \<times> VdfNodeJson) list"

definition VdfGame_json :: "VdfGame \<Rightarrow> VdfGameJson" where
  "VdfGame_json g =
     foldl (\<lambda>object child. assign object (property_key (n_name child)) (VdfNode_value child))
       [(''appId'', Data (Num (g_appId g))),
        (''dataSize'', Data (Num (g_dataSize g))),
        (''infoState'', Data (Num (g_infoState g))),
        (''lastUpdated'', Data (Num (g_lastUpdated g))),
        (''changeNumber'', Data (Num (g_changeNumber g)))]
       (g_children g)"

subsection \<open>An entry that decodes consumes input\<close>

lemma parseRawBytes_length: "parseRawBytes s n = Inr (v, s') \<Longrightarrow> length s' \<le> length s"
  by (auto simp: parseRawBytes_def read_def Let_def split: if_splits sum.splits)

lemma VdfGame_parseHeader_length:
  assumes "VdfGame_parseHeader s = Inr (g, s')"
  shows "length s' \<le> length s"
proof -
  obtain a s1 where 1: "parseNumber s 32 = (a, s1)" by (cases "parseNumber s 32")
  obtain b s2 where 2: "parseNumber s1 32 = (b, s2)" by (cases "parseNumber s1 32")
  obtain c s3 where 3: "parseNumber s2 32 = (c, s3)" by (cases "parseNumber s2 32")
  obtain d s4 where 4: "parseNumber s3 32 = (d, s4)" by (cases "parseNumber s3 32")
  obtain e s5 where 5: "parseNumber s4 64 = (e, s5)" by (cases "parseNumber s4 64")
  from assms 1 2 3 4 5 obtain sha s6 where 6: "parseRawBytes s5 160 = Inr (sha, s6)"
    by (auto simp: VdfGame_parseHeader_def split: sum.splits)
  obtain f s7 where 7: "parseNumber s6 32 = (f, s7)" by (cases "parseNumber s6 32")
  from assms 1 2 3 4 5 6 7 have "s' = s7" by (simp add: VdfGame_parseHeader_def)
  with parseNumber_length [OF 1] parseNumber_length [OF 2] parseNumber_length [OF 3]
    parseNumber_length [OF 4] parseNumber_length [OF 5] parseRawBytes_length [OF 6]
    parseNumber_length [OF 7]
  show ?thesis by simp
qed

lemma VdfGame_parseBody_loop_length:
  "VdfGame_parseBody_loop cnt chs s = Inr (cnt', chs', s') \<Longrightarrow> length s' \<le> length s"
proof (induction cnt chs s rule: VdfGame_parseBody_loop.induct)
  case (1 cnt chs stream)
  note eq = "1.prems" [unfolded VdfGame_parseBody_loop.simps [of cnt chs stream]]
  from eq obtain c where at: "array_at chs (cnt - 1) = Some c" by (auto split: option.splits)
  show ?case
  proof (cases "n_type c = VdfTypes_End")
    case True
    with eq at show ?thesis by simp
  next
    case False
    then obtain c' s1 where nn: "new_VdfNode stream = Inr (c', s1)"
      and lp: "VdfGame_parseBody_loop (cnt + 1) (chs @ [c']) s1 = Inr (cnt', chs', s')"
      using eq at by (auto split: sum.splits)
    have "length s1 < length stream" using nn by (rule new_VdfNode_length)
    moreover have "length s' \<le> length s1" using "1.IH" [OF at False nn refl lp] .
    ultimately show ?thesis by simp
  qed
qed

lemma new_VdfGame_length:
  assumes "new_VdfGame s = Inr (g, s')"
  shows "length s' < length s"
proof -
  from assms obtain g0 s1 where h: "VdfGame_parseHeader s = Inr (g0, s1)"
    and b: "VdfGame_parseBody g0 s1 = Inr (g, s')"
    by (auto simp: new_VdfGame_def split: sum.splits)
  from b obtain c s2 where nn: "new_VdfNode s1 = Inr (c, s2)"
    by (auto simp: VdfGame_parseBody_def split: sum.splits)
  with b obtain cnt chs where lp:
    "VdfGame_parseBody_loop (g_childrenCount g0 + 1) (g_children g0 @ [c]) s2 = Inr (cnt, chs, s')"
    by (auto simp: VdfGame_parseBody_def split: sum.splits)
  from VdfGame_parseHeader_length [OF h] new_VdfNode_length [OF nn]
    VdfGame_parseBody_loop_length [OF lp]
  show ?thesis by linarith
qed

section \<open>Vdf\<close>

text \<open>
  The document and its externalized form. The constants \<open>VdfFileTypes.APPINFO\<close> and
  \<open>VdfVersions\<close> that the class imports from the module \<open>config\<close> are parameters of
  the decoder: the signature constant and the list of accepted versions.
  \<open>_parseHeader\<close> tests the signature with \<open>[APPINFO].includes\<close> and the version with
  \<open>VdfVersions.includes\<close>; nothing catches its two errors.
\<close>

record Vdf =
  d_sign :: int
  d_version :: int
  d_childrenCount :: int
  d_children :: "VdfGame list"

record VdfJson =
  j_sign :: int
  j_version :: int
  j_count :: int
  j_games :: "VdfGameJson list"

definition Vdf_parseHeader :: "int \<Rightarrow> int list \<Rightarrow> Readable \<Rightarrow> error + ((int \<times> int) \<times> Readable)" where
  "Vdf_parseHeader APPINFO VdfVersions stream =
     (case parseNumber stream 32 of (sign, s1) \<Rightarrow>
        if sign \<notin> set [APPINFO] then Inl (InvalidFileType sign)
        else (case parseNumber s1 32 of (version, s2) \<Rightarrow>
          if version \<notin> set VdfVersions then Inl InvalidVersion
          else Inr ((sign, version), s2)))"

text \<open>
  \<open>_parseBody\<close>: \<open>try { while (true) { count++; children.push(new VdfGame(stream)) } }
  catch { count--; children.pop() }\<close>. A constructor that raises leaves the loop after
  the increment and before \<open>push\<close> is called; \<open>Vdf_parseBody_loop\<close> returns the count
  and the children at that moment, and \<open>Vdf_parseBody\<close> applies the \<open>catch\<close> block
  (\<open>pop()\<close> on an empty array changes nothing, as \<open>butlast\<close>).
\<close>

function Vdf_parseBody_loop :: "int \<Rightarrow> VdfGame list \<Rightarrow> Readable \<Rightarrow> int \<times> VdfGame list" where
  "Vdf_parseBody_loop cnt chs stream =
     (case new_VdfGame stream of
        Inl e \<Rightarrow> (cnt + 1, chs)
      | Inr (g, stream') \<Rightarrow> Vdf_parseBody_loop (cnt + 1) (chs @ [g]) stream')"
  by pat_completeness auto
termination
proof (relation "measure (\<lambda>(cnt, chs, stream). length stream)", goal_cases)
  case 1
  show ?case by simp
next
  case (2 cnt chs stream b g stream')
  then have "new_VdfGame stream = Inr (g, stream')" by simp
  then show ?case by (simp add: new_VdfGame_length)
qed

declare Vdf_parseBody_loop.simps [simp del]

definition Vdf_parseBody :: "Readable \<Rightarrow> int \<times> VdfGame list" where
  "Vdf_parseBody stream =
     (case Vdf_parseBody_loop 0 [] stream of (cnt, chs) \<Rightarrow> (cnt - 1, butlast chs))"

definition new_Vdf :: "int \<Rightarrow> int list \<Rightarrow> byte list \<Rightarrow> error + Vdf" where
  "new_Vdf APPINFO VdfVersions buffer =
     (case Vdf_parseHeader APPINFO VdfVersions buffer of
        Inl e \<Rightarrow> Inl e
      | Inr ((sign, version), s1) \<Rightarrow>
          (case Vdf_parseBody s1 of (cnt, chs) \<Rightarrow>
             Inr \<lparr>d_sign = sign, d_version = version, d_childrenCount = cnt, d_children = chs\<rparr>))"

definition jsonSync :: "Vdf \<Rightarrow> VdfJson" where
  "jsonSync d = \<lparr>j_sign = d_sign d, j_version = d_version d, j_count = d_childrenCount d,
                 j_games = map VdfGame_json (d_children d)\<rparr>"

section \<open>Notions used to state the properties\<close>

text \<open>
  The bytes of a name or of a string value become characters one by one, as
  \<open>string += String.fromCharCode(code)\<close> does.
\<close>

definition chars_of :: "byte list \<Rightarrow> string" where
  "chars_of bs = map (\<lambda>b. fromCharCode (Some (uint b))) bs"

text \<open>
  The unsigned value of a byte sequence read least significant byte first, and the
  reading of an integer as a signed 32-bit one (what \<open>|\<close> and \<open><<\<close> return).
\<close>

definition little_endian :: "byte list \<Rightarrow> int" where
  "little_endian bs = foldr (\<lambda>b v. uint b + 2 ^ 8 * v) bs 0"

definition int32 :: "int \<Rightarrow> int" where
  "int32 v = sint (word_of_int v :: 32 word)"



text \<open>
  A node is free of terminators when its count is the number of its children, none of
  its children has the type \<open>End\<close>, and its children are free of terminators.
\<close>

fun terminator_free :: "VdfNode \<Rightarrow> bool" where
  "terminator_free (Node t name v cnt chs) =
     (cnt = int (length chs) \<and> (\<forall>c \<in> set chs. n_type c \<noteq> VdfTypes_End \<and> terminator_free c))"

text \<open>
  What holds of the count and the children each time the \<open>while\<close> loop of a map tests
  its condition: the count is the number of nodes pushed, and all but the one pushed
  last are not terminators.
\<close>

definition loop_inv :: "int \<Rightarrow> VdfNode list \<Rightarrow> bool" where
  "loop_inv cnt chs \<longleftrightarrow>
     chs \<noteq> [] \<and> cnt = int (length chs) \<and> terminator_free (last chs)
     \<and> (\<forall>c \<in> set (butlast chs). n_type c \<noteq> VdfTypes_End \<and> terminator_free c)"

text \<open>
  The node layout of the format: a tag byte, a null-terminated name, and then the
  children of a map followed by one terminator byte, the null-terminated bytes of a
  string, or the four bytes of an int32; a node with any other tag has no value bytes.
  A \<open>wire\<close> value is a node as it is laid out in the input, \<open>encode\<close> is its byte
  sequence, and it is well formed when no name and no string holds a zero byte and the
  tag of a node without value is none of map, string, int32 and terminator.
  \<open>node_of\<close> is the node that the layout describes: the children of a map are its
  children in the input, in order, and its count is their number.
\<close>

datatype wire =
    WMap "byte list" "wire list"
  | WString "byte list" "byte list"
  | WInt32 "byte list" byte byte byte byte
  | WOther byte "byte list"

fun wire_name :: "wire \<Rightarrow> byte list" where
  "wire_name (WMap name ws) = name"
| "wire_name (WString name bs) = name"
| "wire_name (WInt32 name b0 b1 b2 b3) = name"
| "wire_name (WOther t name) = name"

fun encode :: "wire \<Rightarrow> byte list" where
  "encode (WMap name ws) = 0x00 # name @ 0x00 # concat (map encode ws) @ [0x08]"
| "encode (WString name bs) = 0x01 # name @ 0x00 # bs @ [0x00]"
| "encode (WInt32 name b0 b1 b2 b3) = 0x02 # name @ 0x00 # [b0, b1, b2, b3]"
| "encode (WOther t name) = t # name @ [0x00]"

fun well_formed :: "wire \<Rightarrow> bool" where
  "well_formed (WMap name ws) = (0 \<notin> set name \<and> (\<forall>w \<in> set ws. well_formed w))"
| "well_formed (WString name bs) = (0 \<notin> set name \<and> 0 \<notin> set bs)"
| "well_formed (WInt32 name b0 b1 b2 b3) = (0 \<notin> set name)"
| "well_formed (WOther t name) = (t \<notin> {0x00, 0x01, 0x02, 0x08} \<and> 0 \<notin> set name)"

fun node_of :: "wire \<Rightarrow> VdfNode" where
  "node_of (WMap name ws) =
     Node VdfTypes_Map (Some (chars_of name)) Undefined (int (length ws)) (map node_of ws)"
| "node_of (WString name bs) = Node VdfTypes_String (Some (chars_of name)) (Str (chars_of bs)) 0 []"
| "node_of (WInt32 name b0 b1 b2 b3) =
     Node VdfTypes_Int32 (Some (chars_of name)) (Num (int32 (little_endian [b0, b1, b2, b3]))) 0 []"
| "node_of (WOther t name) = Node (uint t) (Some (chars_of name)) Undefined 0 []"

text \<open>The node that the constructor returns for a terminator byte.\<close>

definition terminator :: VdfNode where
  "terminator = Node VdfTypes_End None Undefined 0 []"

text \<open>
  The properties that the children of a map in the input give to its externalized
  object: one per child, under the child's name, in the order of the input. Where names
  repeat the last child wins, so the object is read through the reversed list. A child
  named \<open>__proto__\<close> gives no property.
\<close>

definition child_properties :: "wire list \<Rightarrow> (string \<times> VdfNodeJson) list" where
  "child_properties ws =
     map (\<lambda>w. (chars_of (wire_name w), VdfNode_value (node_of w)))
       (filter (\<lambda>w. chars_of (wire_name w) \<noteq> ''__proto__'') ws)"

section \<open>A sample document\<close>

text \<open>
  The examples use the signature 123094055 that \<open>types.ts\<close> documents for
  \<open>appinfo.vdf\<close> (the bytes \<open>27 44 56 07\<close>) and accept the single version 1.

  \<open>example_map\<close> is the map \<open>a\<close> that holds the string \<open>k = v\<close>, with its terminator;
  \<open>example_node\<close> is the node it decodes to. \<open>example_entry\<close> is one complete entry:
  the 48 header bytes (application 1, size 2, state 3, last update 4, access token 5, a
  digest of twenty bytes \<open>0x11\<close>, change number 6), the root map and the terminator
  that ends the entry; \<open>example_game\<close> is the entry it decodes to.
\<close>

definition example_header :: "byte list" where
  "example_header = [0x27, 0x44, 0x56, 0x07,  0x01, 0x00, 0x00, 0x00]"

definition example_map :: "byte list" where
  "example_map = [0x00, 0x61, 0x00,  0x01, 0x6B, 0x00, 0x76, 0x00,  0x08]"

definition example_node :: VdfNode where
  "example_node = Node 0 (Some ''a'') Undefined 1 [Node 1 (Some ''k'') (Str ''v'') 0 []]"

definition example_entry :: "byte list" where
  "example_entry =
     [0x01, 0x00, 0x00, 0x00,  0x02, 0x00, 0x00, 0x00,  0x03, 0x00, 0x00, 0x00,
      0x04, 0x00, 0x00, 0x00,  0x05, 0x00, 0x00, 0x00, 0x00, 0x00, 0x00, 0x00]
     @ replicate 20 0x11
     @ [0x06, 0x00, 0x00, 0x00]
     @ example_map @ [0x08]"

definition example_game :: VdfGame where
  "example_game =
     \<lparr>g_appId = 1, g_dataSize = 2, g_infoState = 3, g_lastUpdated = 4, g_accessToken = 5,
      g_sha = ''1111111111111111111111111111111111111111'', g_changeNumber = 6,
      g_childrenCount = 1, g_children = [example_node]\<rparr>"

text \<open>
  \<open>example_wire_children\<close> are three children of a map as laid out in the input: the
  string \<open>k = v\<close>, the int32 \<open>n\<close> with the bytes \<open>FF FF FF FF\<close>, and the map \<open>m\<close> that
  holds a node \<open>x\<close> with the tag 7. \<open>collision_entry\<close> is an entry like
  \<open>example_entry\<close> whose children are a map named \<open>dataSize\<close> and a string named
  \<open>sha\<close>; \<open>collision_game\<close> is the entry it decodes to.
\<close>

definition example_wire_children :: "wire list" where
  "example_wire_children =
     [WString [0x6B] [0x76], WInt32 [0x6E] 0xFF 0xFF 0xFF 0xFF, WMap [0x6D] [WOther 0x07 [0x78]]]"



lemma example_entry_decodes: "new_VdfGame example_entry = Inr (example_game, [])"
  by code_simp

section \<open>The fixed-width readers\<close>

lemma parseNumber_8_Cons: "parseNumber (b # s) 8 = (uint b, s)"
  by (simp add: parseNumber_def read_def buffer_at_def parseNumber_loop_done)

lemma le_int_or:
  fixes b0 b1 b2 b3 :: byte
  shows "uint b0 + 2 ^ 8 * uint b1 + 2 ^ 16 * uint b2 + 2 ^ 24 * uint b3 =
     uint b0 OR push_bit 8 (uint b1) OR push_bit 16 (uint b2) OR push_bit 24 (uint b3)"
proof -
  have t: "take_bit 8 (uint b) = uint b" for b :: byte
    by (rule bintr_uint) simp
  have "uint b0 + 2 ^ 8 * uint b1 + 2 ^ 16 * uint b2 + 2 ^ 24 * uint b3 =
      concat_bit 8 (uint b0) (concat_bit 8 (uint b1) (concat_bit 8 (uint b2) (uint b3)))"
    by (simp add: concat_bit_eq push_bit_eq_mult t)
  also have "\<dots> = uint b0 OR push_bit 8 (uint b1) OR push_bit 16 (uint b2) OR push_bit 24 (uint b3)"
    by (simp add: concat_bit_def t)
  finally show ?thesis .
qed

lemma le_word_or:
  fixes b0 b1 b2 b3 :: byte
  shows "(word_of_int (uint b0 + 2 ^ 8 * uint b1 + 2 ^ 16 * uint b2 + 2 ^ 24 * uint b3) :: 32 word) =
     ucast b0 OR push_bit 8 (ucast b1) OR push_bit 16 (ucast b2) OR push_bit 24 (ucast b3)"
  by (simp only: le_int_or of_int_or_eq of_int_push_bit ucast_eq)

lemma parseNumber_32_or:
  "parseNumber (b0 # b1 # b2 # b3 # rest) 32 =
     (sint (ucast b0 OR push_bit 8 (ucast b1) OR push_bit 16 (ucast b2) OR push_bit 24 (ucast b3)
              :: 32 word), rest)"
  by (simp add: parseNumber_def read_def buffer_at_def parseNumber_loop.simps js_or_def js_shl_def
      ToInt32_def or.assoc)

text \<open>
  A 32-bit read of four bytes that are there returns their little-endian value as a
  signed 32-bit integer, and leaves the rest of the stream.
\<close>

lemma parseNumber_32_Cons:
  "parseNumber (b0 # b1 # b2 # b3 # rest) 32 = (int32 (little_endian [b0, b1, b2, b3]), rest)"
proof -
  have "little_endian [b0, b1, b2, b3] =
      uint b0 + 2 ^ 8 * uint b1 + 2 ^ 16 * uint b2 + 2 ^ 24 * uint b3"
    by (simp add: little_endian_def)
  then show ?thesis
    by (simp only: parseNumber_32_or le_word_or int32_def)
qed

text \<open>
  For a constant below \<open>2 ^ 31\<close>, such as the signature 123094055, the signed and the
  unsigned reading of four bytes equal the constant on the same inputs.
\<close>

lemma int32_eq_iff:
  assumes "0 \<le> v" "v < 2 ^ 32" "0 \<le> c" "c < 2 ^ 31"
  shows "int32 v = c \<longleftrightarrow> v = c"
proof -
  have "int32 v = take_bit 32 (v + 2 ^ 31) - 2 ^ 31"
    by (simp add: int32_def sint_sbintrunc' signed_take_bit_eq_take_bit_shift)
  also have "\<dots> = (v + 2 ^ 31) mod 2 ^ 32 - 2 ^ 31"
    by (simp add: take_bit_eq_mod)
  finally have eq: "int32 v = (v + 2 ^ 31) mod 2 ^ 32 - 2 ^ 31" .
  show ?thesis
  proof (cases "v < 2 ^ 31")
    case True
    with assms have "(v + 2 ^ 31) mod 2 ^ 32 = v + 2 ^ 31" by simp
    with eq show ?thesis by simp
  next
    case False
    with assms have "(v + 2 ^ 31) mod 2 ^ 32 = v + 2 ^ 31 - 2 ^ 32"
      by (simp add: mod_pos_geq)
    with eq False assms show ?thesis by simp
  qed
qed

text \<open>
  C5. \<open>parseNumber\<close> is claimed to return the unsigned little-endian value of the
  bytes it reads, for the widths 8, 32 and 64. The shift \<open>buffer[i] << (i * 8)\<close>
  uses the shift count modulo 32 and works on 32-bit integers, so in a 64-bit read the
  bytes 4 to 7 are combined into the low 32 bits: the 8 bytes \<open>00 00 00 00 01 00 00 00\<close>
  (the unsigned little-endian value \<open>2 ^ 32\<close>) are read as 1.
\<close>

theorem C5_parseNumber_64_wraps:
  "parseNumber [0x00, 0x00, 0x00, 0x00, 0x01, 0x00, 0x00, 0x00] 64 = (1, [])"
  by code_simp

text \<open>
  C4. \<open>parseRawBytes\<close> is claimed to render every byte as two hexadecimal digits, so
  that a 160-bit digest gives 40 characters and the bytes \<open>00 1A FF\<close> give a string
  that starts with \<open>001aff\<close>. \<open>buffer[i].toString(16)\<close> does not pad: a byte below
  16 gives one digit. The digest \<open>00 1A FF 07 ... 07\<close> is rendered in 22 characters
  that start with \<open>01aff\<close>.
\<close>

theorem C4_parseRawBytes_unpadded:
  "parseRawBytes ([0x00, 0x1A, 0xFF] @ replicate 17 0x07) 160 =
     Inr (''01aff77777777777777777'', [])"
  by code_simp

lemma parseNumber_loop_cong:
  "(\<And>j. ToInt32 (buffer_at b1 j) = ToInt32 (buffer_at b2 j)) \<Longrightarrow>
     parseNumber_loop i bytes b1 number = parseNumber_loop i bytes b2 number"
proof (induction i bytes b1 number rule: parseNumber_loop.induct)
  case (1 i bytes buffer number)
  show ?case
  proof (cases "i < bytes")
    case True
    have "js_shl (buffer_at buffer i) (i * 8) = js_shl (buffer_at b2 i) (i * 8)"
      by (simp add: js_shl_def "1.prems")
    with True "1.IH" [OF True "1.prems"] show ?thesis
      by (simp add: parseNumber_loop.simps [of i bytes])
  next
    case False
    then show ?thesis by (simp add: parseNumber_loop.simps [of i bytes])
  qed
qed

lemma parseRawBytes_loop_short:
  "i \<le> length buffer \<Longrightarrow> length buffer < bytes \<Longrightarrow>
     parseRawBytes_loop i bytes buffer str = Inl TypeError"
proof (induction "length buffer - i" arbitrary: i str)
  case 0
  then show ?case by (simp add: parseRawBytes_loop.simps [of i] buffer_at_def)
next
  case (Suc d)
  then have "i < length buffer" "i < bytes" by simp_all
  moreover have "parseRawBytes_loop (i + 1) bytes buffer str' = Inl TypeError" for str'
    using Suc by (intro Suc.hyps) simp_all
  ultimately show ?case by (simp add: parseRawBytes_loop.simps [of i] buffer_at_def)
qed

text \<open>
  C3. The fixed-width readers are claimed to fail with an end-of-input error whenever
  fewer bytes remain than the width requires. \<open>parseNumber\<close> replaces a \<open>null\<close> read
  by the buffer \<open>[0]\<close> and reads a missing byte as \<open>undefined\<close>, which \<open><<\<close> takes as 0:
  with one byte \<open>2A\<close> left a 32-bit read returns 42, and with no byte left it returns 0.
\<close>

theorem C3_counterexample:
  "length [0x2A :: byte] < 32 div 8 \<and> parseNumber [0x2A] 32 = (42, [])
   \<and> parseNumber [] 32 = (0, [])"
  by code_simp

text \<open>
  C3, as the code has it. When fewer than \<open>bytes\<close> bytes remain, \<open>parseNumber\<close> does not
  fail: it consumes what remains and returns the number it returns on the same bytes
  followed by zero bytes up to the width. \<open>parseRawBytes\<close> fails, with the
  \<open>TypeError\<close> of \<open>buffer[i].toString\<close> on a missing byte, for every width of two
  bytes or more.
\<close>

theorem C3_short_reads:
  assumes "length stream < bytes"
  shows "parseNumber stream (8 * bytes) =
           (fst (parseNumber (stream @ replicate (bytes - length stream) 0) (8 * bytes)), [])
         \<and> (2 \<le> bytes \<longrightarrow> parseRawBytes stream (8 * bytes) = Inl TypeError)"
proof
  let ?padded = "stream @ replicate (bytes - length stream) 0"
  let ?buffer = "if stream = [] then [0] else stream"
  have eight: "(8::nat) \<noteq> 0" by simp
  have r1: "read stream bytes = (if stream = [] then None else Some stream, [])"
    using assms by (simp add: read_def)
  have r2: "read ?padded bytes = (Some ?padded, [])"
    using assms by (simp add: read_def)
  have at: "ToInt32 (buffer_at ?buffer j) = ToInt32 (buffer_at ?padded j)" for j
    using assms by (auto simp: buffer_at_def ToInt32_def nth_append)
  have first: "(case buffer_at ?buffer 0 of Some v \<Rightarrow> v | None \<Rightarrow> 0) =
               (case buffer_at ?padded 0 of Some v \<Rightarrow> v | None \<Rightarrow> 0)"
    using assms by (cases stream) (auto simp: buffer_at_def nth_append)
  have "parseNumber stream (8 * bytes) =
      (parseNumber_loop 1 bytes ?buffer (case buffer_at ?buffer 0 of Some v \<Rightarrow> v | None \<Rightarrow> 0), [])"
    by (simp add: parseNumber_def r1 Let_def)
  moreover have "parseNumber ?padded (8 * bytes) =
      (parseNumber_loop 1 bytes ?padded (case buffer_at ?padded 0 of Some v \<Rightarrow> v | None \<Rightarrow> 0), [])"
    unfolding parseNumber_def Let_def nonzero_mult_div_cancel_left [OF eight] r2 by simp
  ultimately show "parseNumber stream (8 * bytes) = (fst (parseNumber ?padded (8 * bytes)), [])"
    using parseNumber_loop_cong [of ?buffer ?padded 1 bytes, OF at] first by simp
  show "2 \<le> bytes \<longrightarrow> parseRawBytes stream (8 * bytes) = Inl TypeError"
  proof
    assume "2 \<le> bytes"
    then have "length ?buffer < bytes" using assms by simp
    then have "parseRawBytes_loop 0 bytes ?buffer [] = Inl TypeError"
      by (intro parseRawBytes_loop_short) simp_all
    then show "parseRawBytes stream (8 * bytes) = Inl TypeError"
      using r1 by (cases "stream = []") (simp_all add: parseRawBytes_def)
  qed
qed

theorem C3_short_reads_witness:
  "length [0x2A :: byte] < 4
   \<and> parseNumber [0x2A] 32 = (fst (parseNumber [0x2A, 0, 0, 0] 32), [])
   \<and> parseRawBytes [0x2A] 32 = Inl TypeError"
  using C3_short_reads [of "[0x2A]" 4] by (simp add: numeral_eq_Suc)

section \<open>The document header\<close>

text \<open>
  C7. A buffer whose first four bytes, read as a little-endian 32-bit integer, differ
  from the accepted signature is rejected with the invalid-signature error (which
  carries the value read), whatever follows the four bytes; a buffer with the accepted
  signature and then four bytes that are not an accepted version is rejected with the
  invalid-version error, whatever follows. Both hold for every signature constant and
  every list of accepted versions.
\<close>

theorem C7_header_rejection:
  "(int32 (little_endian [b0, b1, b2, b3]) \<noteq> APPINFO \<longrightarrow>
      new_Vdf APPINFO VdfVersions (b0 # b1 # b2 # b3 # rest) =
        Inl (InvalidFileType (int32 (little_endian [b0, b1, b2, b3]))))
   \<and> (int32 (little_endian [b0, b1, b2, b3]) = APPINFO
        \<and> int32 (little_endian [c0, c1, c2, c3]) \<notin> set VdfVersions \<longrightarrow>
      new_Vdf APPINFO VdfVersions (b0 # b1 # b2 # b3 # c0 # c1 # c2 # c3 # rest) =
        Inl InvalidVersion)"
  by (simp add: new_Vdf_def Vdf_parseHeader_def parseNumber_32_Cons)

theorem C7_header_rejection_witness:
  "int32 (little_endian [0x28, 0x44, 0x56, 0x07]) \<noteq> 123094055
   \<and> new_Vdf 123094055 [1] (0x28 # 0x44 # 0x56 # 0x07 # 0x01 # 0x00 # 0x00 # 0x00 # example_entry) =
       Inl (InvalidFileType 123094056)
   \<and> int32 (little_endian [0x27, 0x44, 0x56, 0x07]) = 123094055
   \<and> int32 (little_endian [0x02, 0x00, 0x00, 0x00]) \<notin> set [1]
   \<and> new_Vdf 123094055 [1] (0x27 # 0x44 # 0x56 # 0x07 # 0x02 # 0x00 # 0x00 # 0x00 # example_entry) =
       Inl InvalidVersion"
  using C7_header_rejection [where ?b0.0 = "0x28" and ?b1.0 = "0x44" and ?b2.0 = "0x56"
      and ?b3.0 = "0x07" and APPINFO = 123094055 and VdfVersions = "[1]"
      and rest = "0x01 # 0x00 # 0x00 # 0x00 # example_entry"]
    C7_header_rejection [where ?b0.0 = "0x27" and ?b1.0 = "0x44" and ?b2.0 = "0x56"
      and ?b3.0 = "0x07" and APPINFO = 123094055 and VdfVersions = "[1]"
      and ?c0.0 = "0x02" and ?c1.0 = "0x00" and ?c2.0 = "0x00" and ?c3.0 = "0x00"
      and rest = example_entry]
  by (simp add: int32_def little_endian_def)

section \<open>Nodes\<close>

lemma parseString_loop_Cons:
  "parseString_loop (b # s) str =
     (if b = 0 then Inr (str, s) else parseString_loop s (str @ [fromCharCode (Some (uint b))]))"
  by (subst parseString_loop.simps) (simp add: read_def buffer_at_def Let_def uint_0_iff)

lemma parseString_loop_terminated:
  "0 \<notin> set name \<Longrightarrow> parseString_loop (name @ 0 # rest) str = Inr (str @ chars_of name, rest)"
  by (induction name arbitrary: str) (auto simp: parseString_loop_Cons chars_of_def)

text \<open>
  \<open>parseString\<close> on bytes without a zero, followed by a zero byte: the bytes as
  characters; the zero byte is consumed and not appended.
\<close>

lemma parseString_terminated:
  "0 \<notin> set name \<Longrightarrow> parseString (name @ 0 # rest) = Inr (chars_of name, rest)"
  by (simp add: parseString_def parseString_loop_terminated)

lemma chars_of_hello: "chars_of [0x68, 0x65, 0x6C, 0x6C, 0x6F] = ''hello''"
  by code_simp

lemma chars_of_k: "chars_of [0x6B] = ''k''"
  by code_simp

lemma parseNumber_32_ff: "parseNumber (0xFF # 0xFF # 0xFF # 0xFF # rest) 32 = (- 1, rest)"
  by (simp add: parseNumber_32_Cons little_endian_def int32_def)

text \<open>
  C8. A node whose tag is float32, pointer, wide-string, colour or uint64, followed by
  a null-terminated name: decoding succeeds, consumes the tag byte and the name with its
  zero byte and nothing else, and the node has no value and no children.
\<close>

theorem C8_unhandled_tags:
  assumes "uint t \<in> {VdfTypes_Float32, VdfTypes_Ptr, VdfTypes_Wstring, VdfTypes_Color,
                       VdfTypes_Uint64}"
    and "0 \<notin> set name"
  shows "new_VdfNode (t # name @ 0 # rest) =
           Inr (Node (uint t) (Some (chars_of name)) Undefined 0 [], rest)"
  using assms
  by (subst new_VdfNode.simps)
     (auto simp: parseNumber_8_Cons parseString_terminated VdfTypes_End_def VdfTypes_Map_def
        VdfTypes_String_def VdfTypes_Int32_def VdfTypes_Float32_def VdfTypes_Ptr_def
        VdfTypes_Wstring_def VdfTypes_Color_def VdfTypes_Uint64_def)

theorem C8_unhandled_tags_witness:
  "uint (0x07 :: byte) \<in> {VdfTypes_Float32, VdfTypes_Ptr, VdfTypes_Wstring, VdfTypes_Color,
                            VdfTypes_Uint64}
   \<and> 0 \<notin> set [0x6B :: byte]
   \<and> new_VdfNode (0x07 # [0x6B] @ 0x00 # [0x2A, 0x08]) =
       Inr (Node 7 (Some ''k'') Undefined 0 [], [0x2A, 0x08])"
  using C8_unhandled_tags [of "0x07" "[0x6B]" "[0x2A, 0x08]"]
  by (simp add: VdfTypes_Uint64_def chars_of_k)

text \<open>
  C9. A string node whose value bytes are \<open>hello\<close> and a zero byte decodes to the
  string \<open>hello\<close>, and an int32 node whose value bytes are \<open>FF FF FF FF\<close> decodes to
  \<open>-1\<close>, for every name and whatever follows the node; the \<open>value\<close> getter
  returns the same string and number.
\<close>

theorem C9_scalar_nodes:
  assumes "0 \<notin> set name"
  shows "new_VdfNode (0x01 # name @ 0 # [0x68, 0x65, 0x6C, 0x6C, 0x6F, 0x00] @ rest) =
           Inr (Node VdfTypes_String (Some (chars_of name)) (Str ''hello'') 0 [], rest)
       \<and> VdfNode_value (Node VdfTypes_String (Some (chars_of name)) (Str ''hello'') 0 []) =
           Data (Str ''hello'')
       \<and> new_VdfNode (0x02 # name @ 0 # [0xFF, 0xFF, 0xFF, 0xFF] @ rest) =
           Inr (Node VdfTypes_Int32 (Some (chars_of name)) (Num (- 1)) 0 [], rest)
       \<and> VdfNode_value (Node VdfTypes_Int32 (Some (chars_of name)) (Num (- 1)) 0 []) =
           Data (Num (- 1))"
proof -
  have "parseString ([0x68, 0x65, 0x6C, 0x6C, 0x6F] @ 0 # rest) = Inr (''hello'', rest)"
    by (subst parseString_terminated) (simp_all add: chars_of_hello)
  then have "new_VdfNode (0x01 # name @ 0 # [0x68, 0x65, 0x6C, 0x6C, 0x6F, 0x00] @ rest) =
           Inr (Node VdfTypes_String (Some (chars_of name)) (Str ''hello'') 0 [], rest)"
    using assms
    by (subst new_VdfNode.simps)
       (simp add: parseNumber_8_Cons parseString_terminated VdfTypes_End_def VdfTypes_Map_def
          VdfTypes_String_def)
  moreover have "new_VdfNode (0x02 # name @ 0 # [0xFF, 0xFF, 0xFF, 0xFF] @ rest) =
           Inr (Node VdfTypes_Int32 (Some (chars_of name)) (Num (- 1)) 0 [], rest)"
    using assms
    by (subst new_VdfNode.simps)
       (simp add: parseNumber_8_Cons parseString_terminated parseNumber_32_ff VdfTypes_End_def
          VdfTypes_Map_def VdfTypes_String_def VdfTypes_Int32_def)
  ultimately show ?thesis
    by (simp add: VdfTypes_String_def VdfTypes_Int32_def)
qed

theorem C9_scalar_nodes_witness:
  "0 \<notin> set [0x6B :: byte]
   \<and> new_VdfNode (0x01 # [0x6B] @ 0x00 # [0x68, 0x65, 0x6C, 0x6C, 0x6F, 0x00] @ [0x08]) =
       Inr (Node 1 (Some ''k'') (Str ''hello'') 0 [], [0x08])
   \<and> VdfNode_value (Node 1 (Some ''k'') (Str ''hello'') 0 []) = Data (Str ''hello'')
   \<and> new_VdfNode (0x02 # [0x6B] @ 0x00 # [0xFF, 0xFF, 0xFF, 0xFF] @ [0x08]) =
       Inr (Node 2 (Some ''k'') (Num (- 1)) 0 [], [0x08])
   \<and> VdfNode_value (Node 2 (Some ''k'') (Num (- 1)) 0 []) = Data (Num (- 1))"
  using C9_scalar_nodes [of "[0x6B]" "[0x08]"]
  by (simp add: VdfTypes_String_def VdfTypes_Int32_def chars_of_k)

subsection \<open>Maps and their terminator\<close>

lemma array_at_last: "chs \<noteq> [] \<Longrightarrow> array_at chs (int (length chs) - 1) = Some (last chs)"
  by (simp add: array_at_def last_conv_nth nat_diff_distrib')

lemma set_butlast_last: "chs \<noteq> [] \<Longrightarrow> set chs = insert (last chs) (set (butlast chs))"
  by (cases chs rule: rev_cases) auto

lemma loop_inv_snoc:
  "loop_inv cnt chs \<Longrightarrow> n_type (last chs) \<noteq> VdfTypes_End \<Longrightarrow> terminator_free c \<Longrightarrow>
     loop_inv (cnt + 1) (chs @ [c])"
  by (auto simp: loop_inv_def butlast_append set_butlast_last)

lemma new_VdfNode_terminator_free_aux:
  "(\<forall>n s'. new_VdfNode s = Inr (n, s') \<longrightarrow> terminator_free n)"
  "(\<forall>cnt' chs' s'. loop_inv cnt chs \<longrightarrow> VdfNode_parseValue_loop cnt chs s = Inr (cnt', chs', s') \<longrightarrow>
       loop_inv cnt' chs' \<and> n_type (last chs') = VdfTypes_End)"
proof (induction s and cnt chs s rule: new_VdfNode_VdfNode_parseValue_loop.induct)
  case (1 stream)
  obtain t s1 where pn: "parseNumber stream 8 = (t, s1)" by (cases "parseNumber stream 8")
  show ?case
  proof (intro allI impI)
    fix n s' assume res: "new_VdfNode stream = Inr (n, s')"
    note eq = res [unfolded new_VdfNode.simps [of stream] pn, simplified]
    show "terminator_free n"
    proof (cases "t = VdfTypes_End")
      case True
      with eq show ?thesis by auto
    next
      case notEnd: False
      then obtain name s2 where ps: "parseString s1 = Inr (name, s2)"
        using eq by (auto split: sum.splits)
      show ?thesis
      proof (cases "t = VdfTypes_Map")
        case True
        then obtain c s3 where nn: "new_VdfNode s2 = Inr (c, s3)"
          using eq notEnd ps by (auto split: sum.splits)
        then obtain cnt chs where lp: "VdfNode_parseValue_loop 1 [c] s3 = Inr (cnt, chs, s')"
          and n: "n = Node t (Some name) Undefined (cnt - 1) (butlast chs)"
          using eq notEnd ps True by (auto split: sum.splits)
        have "terminator_free c"
          using "1.IH"(1) [OF pn [symmetric] notEnd ps refl True] nn by simp
        then have "loop_inv 1 [c]" by (simp add: loop_inv_def)
        then have "loop_inv cnt chs"
          using "1.IH"(2) [OF pn [symmetric] notEnd ps refl True nn refl] lp by simp
        then show ?thesis by (cases chs rule: rev_cases) (auto simp: n loop_inv_def)
      next
        case False
        with eq notEnd ps show ?thesis by (auto split: sum.splits prod.splits if_splits)
      qed
    qed
  qed
next
  case (2 cnt chs stream)
  show ?case
  proof (intro allI impI)
    fix cnt' chs' s'
    assume inv: "loop_inv cnt chs"
      and res: "VdfNode_parseValue_loop cnt chs stream = Inr (cnt', chs', s')"
    have at: "array_at chs (cnt - 1) = Some (last chs)"
      using inv by (simp add: loop_inv_def array_at_last)
    note eq = res [unfolded VdfNode_parseValue_loop.simps [of cnt chs stream] at, simplified]
    show "loop_inv cnt' chs' \<and> n_type (last chs') = VdfTypes_End"
    proof (cases "n_type (last chs) = VdfTypes_End")
      case True
      with eq inv show ?thesis by simp
    next
      case False
      then obtain c' s1 where nn: "new_VdfNode stream = Inr (c', s1)"
        and lp: "VdfNode_parseValue_loop (cnt + 1) (chs @ [c']) s1 = Inr (cnt', chs', s')"
        using eq by (auto split: sum.splits)
      have "terminator_free c'" using "2.IH"(1) [OF at False] nn by simp
      then have "loop_inv (cnt + 1) (chs @ [c'])" using inv False by (intro loop_inv_snoc)
      then show ?thesis using "2.IH"(2) [OF at False nn refl] lp by simp
    qed
  qed
qed


lemma new_VdfNode_terminator_free: "new_VdfNode s = Inr (n, s') \<Longrightarrow> terminator_free n"
  using new_VdfNode_terminator_free_aux(1) by blast

lemma VdfNode_parseValue_loop_inv:
  "loop_inv cnt chs \<Longrightarrow> VdfNode_parseValue_loop cnt chs s = Inr (cnt', chs', s') \<Longrightarrow>
     loop_inv cnt' chs' \<and> n_type (last chs') = VdfTypes_End"
  using new_VdfNode_terminator_free_aux(2) by blast

subsection \<open>Decoding a well-formed node\<close>

lemma n_type_terminator: "n_type terminator = VdfTypes_End"
  by (simp add: terminator_def)

lemma new_VdfNode_terminator: "new_VdfNode (0x08 # rest) = Inr (terminator, rest)"
  by (subst new_VdfNode.simps) (simp add: parseNumber_8_Cons VdfTypes_End_def terminator_def)

lemma uint_byte_tag:
  fixes t :: byte
  shows "uint t = 0 \<longleftrightarrow> t = 0" "uint t = 1 \<longleftrightarrow> t = 1" "uint t = 2 \<longleftrightarrow> t = 2" "uint t = 8 \<longleftrightarrow> t = 8"
proof -
  have "uint t = uint k \<longleftrightarrow> t = k" for k :: byte
    by (simp add: word_uint_eq_iff)
  from this [of 0] this [of 1] this [of 2] this [of 8]
  show "uint t = 0 \<longleftrightarrow> t = 0" "uint t = 1 \<longleftrightarrow> t = 1" "uint t = 2 \<longleftrightarrow> t = 2" "uint t = 8 \<longleftrightarrow> t = 8"
    by simp_all
qed

lemma node_of_not_End: "well_formed w \<Longrightarrow> n_type (node_of w) \<noteq> VdfTypes_End"
  by (cases w)
     (auto simp: VdfTypes_End_def VdfTypes_Map_def VdfTypes_String_def VdfTypes_Int32_def
        uint_byte_tag)

lemma parseValue_loop_reads:
  assumes "\<And>w rest. w \<in> set ws \<Longrightarrow> new_VdfNode (encode w @ rest) = Inr (node_of w, rest)"
    and "\<And>w. w \<in> set ws \<Longrightarrow> n_type (node_of w) \<noteq> VdfTypes_End"
    and "chs \<noteq> []" "cnt = int (length chs)" "n_type (last chs) \<noteq> VdfTypes_End"
  shows "VdfNode_parseValue_loop cnt chs (concat (map encode ws) @ 0x08 # rest) =
           Inr (cnt + int (length ws) + 1, chs @ map node_of ws @ [terminator], rest)"
  using assms
proof (induction ws arbitrary: cnt chs)
  case Nil
  have at: "array_at chs (cnt - 1) = Some (last chs)"
    using Nil.prems by (simp add: array_at_last)
  have at': "array_at (chs @ [terminator]) cnt = Some terminator"
    using Nil.prems array_at_last [of "chs @ [terminator]"] by simp
  have "VdfNode_parseValue_loop (cnt + 1) (chs @ [terminator]) rest = Inr (cnt + 1, chs @ [terminator], rest)"
    by (subst VdfNode_parseValue_loop.simps) (simp add: at' n_type_terminator)
  moreover have "VdfNode_parseValue_loop cnt chs (0x08 # rest) =
      VdfNode_parseValue_loop (cnt + 1) (chs @ [terminator]) rest"
    by (subst VdfNode_parseValue_loop.simps [of cnt chs])
       (simp add: at new_VdfNode_terminator Nil.prems(5))
  ultimately show ?case by simp
next
  case (Cons w ws)
  have at: "array_at chs (cnt - 1) = Some (last chs)"
    using Cons.prems by (simp add: array_at_last)
  have dec: "new_VdfNode (encode w @ concat (map encode ws) @ 0x08 # rest) =
      Inr (node_of w, concat (map encode ws) @ 0x08 # rest)"
    using Cons.prems(1) [of w] by simp
  have "VdfNode_parseValue_loop (cnt + 1) (chs @ [node_of w]) (concat (map encode ws) @ 0x08 # rest) =
      Inr (cnt + 1 + int (length ws) + 1, (chs @ [node_of w]) @ map node_of ws @ [terminator], rest)"
    using Cons.prems by (intro Cons.IH) simp_all
  moreover have "VdfNode_parseValue_loop cnt chs (encode w @ concat (map encode ws) @ 0x08 # rest) =
      VdfNode_parseValue_loop (cnt + 1) (chs @ [node_of w]) (concat (map encode ws) @ 0x08 # rest)"
    by (subst VdfNode_parseValue_loop.simps [of cnt chs])
       (simp add: at dec Cons.prems(5))
  ultimately show ?case by simp
qed

text \<open>
  A well-formed node followed by any bytes decodes to the node that the layout
  describes, and the bytes that follow are what is left of the stream.
\<close>

lemma decode_encode:
  "well_formed w \<Longrightarrow> new_VdfNode (encode w @ rest) = Inr (node_of w, rest)"
proof (induction w arbitrary: rest)
  case (WMap name ws)
  have name: "0 \<notin> set name" and wf: "\<And>w. w \<in> set ws \<Longrightarrow> well_formed w"
    using WMap.prems by simp_all
  have ih: "\<And>w rest. w \<in> set ws \<Longrightarrow> new_VdfNode (encode w @ rest) = Inr (node_of w, rest)"
    using WMap.IH wf by simp
  have ne: "\<And>w. w \<in> set ws \<Longrightarrow> n_type (node_of w) \<noteq> VdfTypes_End"
    using wf by (simp add: node_of_not_End)
  have body: "(case new_VdfNode (concat (map encode ws) @ 0x08 # rest) of
                 Inl e \<Rightarrow> Inl e
               | Inr (c, s3) \<Rightarrow>
                   (case VdfNode_parseValue_loop 1 [c] s3 of
                      Inl e \<Rightarrow> Inl e
                    | Inr (cnt, chs, s4) \<Rightarrow>
                        Inr (Node VdfTypes_Map (Some (chars_of name)) Undefined (cnt - 1) (butlast chs), s4)))
              = Inr (node_of (WMap name ws), rest)"
  proof (cases ws)
    case Nil
    have "VdfNode_parseValue_loop 1 [terminator] rest = Inr (1, [terminator], rest)"
      by (subst VdfNode_parseValue_loop.simps) (simp add: array_at_def n_type_terminator)
    with Nil show ?thesis by (simp add: new_VdfNode_terminator)
  next
    case (Cons w ws')
    have dec: "new_VdfNode (encode w @ concat (map encode ws') @ 0x08 # rest) =
        Inr (node_of w, concat (map encode ws') @ 0x08 # rest)"
      using ih [of w] Cons by simp
    have "VdfNode_parseValue_loop 1 [node_of w] (concat (map encode ws') @ 0x08 # rest) =
        Inr (1 + int (length ws') + 1, [node_of w] @ map node_of ws' @ [terminator], rest)"
      using ih ne Cons by (intro parseValue_loop_reads) simp_all
    with Cons dec show ?thesis by (simp add: butlast_append)
  qed
  show ?case
    using name body unfolding VdfTypes_Map_def
    by (subst new_VdfNode.simps)
       (simp add: parseNumber_8_Cons parseString_terminated VdfTypes_End_def VdfTypes_Map_def)
next
  case (WString name bs)
  then show ?case
    by (subst new_VdfNode.simps)
       (simp add: parseNumber_8_Cons parseString_terminated VdfTypes_End_def VdfTypes_Map_def
          VdfTypes_String_def)
next
  case (WInt32 name b0 b1 b2 b3)
  then show ?case
    by (subst new_VdfNode.simps)
       (simp add: parseNumber_8_Cons parseString_terminated parseNumber_32_Cons VdfTypes_End_def
          VdfTypes_Map_def VdfTypes_String_def VdfTypes_Int32_def)
next
  case (WOther t name)
  then show ?case
    by (subst new_VdfNode.simps)
       (simp add: parseNumber_8_Cons parseString_terminated uint_byte_tag VdfTypes_End_def
          VdfTypes_Map_def VdfTypes_String_def VdfTypes_Int32_def)
qed


lemma property_key_node_of: "property_key (n_name (node_of w)) = chars_of (wire_name w)"
  by (cases w) (simp_all add: property_key_def)

lemma map_of_assign_own: "map_of (assign_own object k v) = (map_of object)(k \<mapsto> v)"
  by (induction object) auto

lemma map_of_assign:
  "map_of (assign object k v) = (if k = ''__proto__'' then map_of object else (map_of object)(k \<mapsto> v))"
  by (simp add: assign_def map_of_assign_own)

lemma map_of_foldl_assign_wire:
  "map_of (foldl (\<lambda>object w. assign object (chars_of (wire_name w)) (VdfNode_value (node_of w)))
             object ws)
     = map_of object ++ map_of (rev (child_properties ws))"
proof (induction ws arbitrary: object)
  case Nil
  show ?case by (simp add: child_properties_def)
next
  case (Cons w ws)
  show ?case
    by (simp add: Cons.IH map_of_assign child_properties_def)
qed

text \<open>
  C6. A well-formed map in the input, whatever follows it, decodes to the map node whose
  children are the children of the input in order and whose count is their number: the
  terminator byte is consumed (what follows it is what is left of the stream) and the
  terminator node is not among the children. No child is a terminator, and the same
  holds at every depth. The externalized value of the map is an object whose properties
  are those of the children of the input and no other.
\<close>

theorem C6_terminator_exclusion:
  assumes "well_formed (WMap name ws)"
  shows "new_VdfNode (encode (WMap name ws) @ rest) =
           Inr (Node VdfTypes_Map (Some (chars_of name)) Undefined (int (length ws))
                  (map node_of ws), rest)
       \<and> (\<forall>w \<in> set ws. n_type (node_of w) \<noteq> VdfTypes_End)
       \<and> terminator_free (Node VdfTypes_Map (Some (chars_of name)) Undefined (int (length ws))
                             (map node_of ws))
       \<and> (\<exists>object.
            VdfNode_value (Node VdfTypes_Map (Some (chars_of name)) Undefined (int (length ws))
                             (map node_of ws)) = Object object
            \<and> map_of object = map_of (rev (child_properties ws)))"
proof (intro conjI)
  show dec: "new_VdfNode (encode (WMap name ws) @ rest) =
           Inr (Node VdfTypes_Map (Some (chars_of name)) Undefined (int (length ws))
                  (map node_of ws), rest)"
    using decode_encode [OF assms, of rest] by simp
  show "\<forall>w \<in> set ws. n_type (node_of w) \<noteq> VdfTypes_End"
    using assms by (simp add: node_of_not_End)
  show "terminator_free (Node VdfTypes_Map (Some (chars_of name)) Undefined (int (length ws))
                             (map node_of ws))"
    using dec by (rule new_VdfNode_terminator_free)
  have "VdfNode_value (Node VdfTypes_Map (Some (chars_of name)) Undefined (int (length ws))
                           (map node_of ws)) =
           Object (foldl (\<lambda>object w. assign object (chars_of (wire_name w))
                                       (VdfNode_value (node_of w))) [] ws)"
    by (simp add: VdfTypes_Map_def foldl_map property_key_node_of)
  moreover have "map_of (foldl (\<lambda>object w. assign object (chars_of (wire_name w))
                                       (VdfNode_value (node_of w))) [] ws)
                 = map_of (rev (child_properties ws))"
    by (simp add: map_of_foldl_assign_wire)
  ultimately show "\<exists>object.
            VdfNode_value (Node VdfTypes_Map (Some (chars_of name)) Undefined (int (length ws))
                             (map node_of ws)) = Object object
            \<and> map_of object = map_of (rev (child_properties ws))"
    by blast
qed

lemma example_wire_well_formed: "well_formed (WMap [0x61] example_wire_children)"
  by code_simp

lemma example_wire_encode:
  "encode (WMap [0x61] example_wire_children) =
     [0x00, 0x61, 0x00,  0x01, 0x6B, 0x00, 0x76, 0x00,  0x02, 0x6E, 0x00, 0xFF, 0xFF, 0xFF, 0xFF,
      0x00, 0x6D, 0x00,  0x07, 0x78, 0x00,  0x08,  0x08]"
  by code_simp

lemma example_wire_nodes:
  "chars_of [0x61] = ''a''"
  "map node_of example_wire_children =
     [Node 1 (Some ''k'') (Str ''v'') 0 [], Node 2 (Some ''n'') (Num (- 1)) 0 [],
      Node 0 (Some ''m'') Undefined 1 [Node 7 (Some ''x'') Undefined 0 []]]"
  "rev (child_properties example_wire_children) =
     [(''m'', Object [(''x'', Data Undefined)]), (''n'', Data (Num (- 1))),
      (''k'', Data (Str ''v''))]"
  by code_simp+

theorem C6_terminator_exclusion_witness:
  "well_formed (WMap [0x61] example_wire_children)
   \<and> new_VdfNode
        ([0x00, 0x61, 0x00,  0x01, 0x6B, 0x00, 0x76, 0x00,  0x02, 0x6E, 0x00, 0xFF, 0xFF, 0xFF, 0xFF,
          0x00, 0x6D, 0x00,  0x07, 0x78, 0x00,  0x08,  0x08] @ [0x2A]) =
       Inr (Node 0 (Some ''a'') Undefined 3
              [Node 1 (Some ''k'') (Str ''v'') 0 [], Node 2 (Some ''n'') (Num (- 1)) 0 [],
               Node 0 (Some ''m'') Undefined 1 [Node 7 (Some ''x'') Undefined 0 []]], [0x2A])
   \<and> (\<exists>object.
        VdfNode_value
          (Node 0 (Some ''a'') Undefined 3
             [Node 1 (Some ''k'') (Str ''v'') 0 [], Node 2 (Some ''n'') (Num (- 1)) 0 [],
              Node 0 (Some ''m'') Undefined 1 [Node 7 (Some ''x'') Undefined 0 []]]) = Object object
        \<and> map_of object =
            map_of [(''m'', Object [(''x'', Data Undefined)]), (''n'', Data (Num (- 1))),
                    (''k'', Data (Str ''v''))])"
proof -
  have len: "int (length example_wire_children) = 3"
    by (simp add: example_wire_children_def)
  from C6_terminator_exclusion [OF example_wire_well_formed, of "[0x2A]"]
  show ?thesis
    unfolding example_wire_encode example_wire_nodes len VdfTypes_Map_def
    using example_wire_well_formed by simp
qed

section \<open>The externalized entry\<close>









section \<open>The entry loop of the document\<close>

text \<open>
  Whatever the input, the loop is left with a count that is one more than the number
  of entries pushed, so after the \<open>catch\<close> block the count of the document is the
  number of entries that were decoded and its list lacks the last of them.
\<close>

lemma Vdf_parseBody_loop_count:
  "Vdf_parseBody_loop cnt chs stream = (cnt', chs') \<Longrightarrow> cnt = int (length chs) \<Longrightarrow>
     cnt' = int (length chs') + 1"
proof (induction cnt chs stream rule: Vdf_parseBody_loop.induct)
  case (1 cnt chs stream)
  show ?case
  proof (cases "new_VdfGame stream")
    case (Inl e)
    with "1.prems"(1) have "cnt' = cnt + 1" "chs' = chs"
      by (simp_all add: Vdf_parseBody_loop.simps [of cnt chs stream])
    with "1.prems"(2) show ?thesis by simp
  next
    case (Inr r)
    obtain g s' where r: "r = (g, s')" by (cases r)
    from "1.prems"(1) Inr r have "Vdf_parseBody_loop (cnt + 1) (chs @ [g]) s' = (cnt', chs')"
      by (simp add: Vdf_parseBody_loop.simps [of cnt chs stream])
    with "1.IH" [OF Inr r [symmetric]] "1.prems"(2) show ?thesis by simp
  qed
qed

lemma new_Vdf_count:
  assumes "new_Vdf APPINFO VdfVersions buffer = Inr d"
  shows "d_childrenCount d = int (length (d_children d)) + 1
         \<or> (d_childrenCount d = 0 \<and> d_children d = [])"
proof -
  from assms obtain sign version s1 cnt chs where b: "Vdf_parseBody s1 = (cnt, chs)"
    and d: "d = \<lparr>d_sign = sign, d_version = version, d_childrenCount = cnt, d_children = chs\<rparr>"
    by (auto simp: new_Vdf_def split: sum.splits prod.splits)
  obtain cnt0 chs0 where l: "Vdf_parseBody_loop 0 [] s1 = (cnt0, chs0)"
    by (cases "Vdf_parseBody_loop 0 [] s1")
  from Vdf_parseBody_loop_count [OF l] have "cnt0 = int (length chs0) + 1" by simp
  moreover from b l have "cnt = cnt0 - 1" "chs = butlast chs0"
    by (simp_all add: Vdf_parseBody_def)
  ultimately show ?thesis
    by (cases chs0 rule: rev_cases) (simp_all add: d)
qed

text \<open>
  C1. A buffer made of a valid signature, a valid version and exactly one complete entry
  is claimed to decode to a document with that one entry. In \<open>Vdf._parseBody\<close> the
  failing \<open>new VdfGame\<close> raises before \<open>push\<close> is called, so the \<open>pop()\<close> of the
  \<open>catch\<close> block removes the entry completed before: the entry decodes on its own, and
  the document decoded from header and entry has the count 1 and no entry.
\<close>

theorem C1_last_entry_dropped:
  "new_VdfGame example_entry = Inr (example_game, [])
   \<and> new_Vdf 123094055 [1] (example_header @ example_entry) =
     Inr \<lparr>d_sign = 123094055, d_version = 1, d_childrenCount = 1, d_children = []\<rparr>"
  by code_simp

text \<open>
  C2. The \<open>count\<close> of the externalized document is claimed to be the number of its
  \<open>games\<close>. On a buffer with two complete entries \<open>jsonSync\<close> gives the count 2 and
  one game.
\<close>

theorem C2_count_exceeds_games:
  "map_sum id jsonSync (new_Vdf 123094055 [1] (example_header @ example_entry @ example_entry)) =
     Inr \<lparr>j_sign = 123094055, j_version = 1, j_count = 2,
          j_games = [[(''appId'', Data (Num 1)), (''dataSize'', Data (Num 2)),
                      (''infoState'', Data (Num 3)), (''lastUpdated'', Data (Num 4)),
                      (''changeNumber'', Data (Num 6)),
                      (''a'', Object [(''k'', Data (Str ''v''))])]]\<rparr>"
  by code_simp

end
